theory Spec2Isabelle
  imports Main
begin

section \<open>Characters and strings\<close>

text \<open>
  A Python \<open>str\<close> is a sequence of Unicode code points and \<open>len\<close> counts code points. The
  model writes a code point as a natural number and a string as the list of its code
  points. A literal of the source is written \<open>ustr ''...''\<close>, the list of the code points of
  its characters; the copyright sign of the source is the code point \<open>0xA9\<close>.
\<close>

type_synonym ustring = "nat list"

definition ustr :: "string \<Rightarrow> ustring" where
  "ustr s = map of_char s"

text \<open>
  What \<open>str.isspace\<close>, \<open>str.isupper\<close>, \<open>str.lower\<close> and the pattern classes \<open>\s\<close> and
  \<open>\d\<close> do with a code point is read by the Python runtime from its tables of the Unicode
  character database, which are not part of the repository. For the code points up to
  U+00FF the model writes these tables out. Above U+00FF it takes them as a parameter: the
  whitespace property (read alike by \<open>str.isspace\<close>, \<open>str.strip\<close>, \<open>str.split\<close> and
  \<open>\s\<close>), the decimal digits (\<open>\d\<close>), the properties Lowercase and Uppercase, the
  titlecase letters, and the lowercase mapping, which may give several code points for
  one and may depend on the code points before and after (the final sigma).
\<close>

record unicode_tables =
  space_tab :: "nat \<Rightarrow> bool"
  decimal_tab :: "nat \<Rightarrow> bool"
  lower_tab :: "nat \<Rightarrow> bool"
  upper_tab :: "nat \<Rightarrow> bool"
  title_tab :: "nat \<Rightarrow> bool"
  tolower_tab :: "nat list \<Rightarrow> nat \<Rightarrow> nat list \<Rightarrow> nat list"

text \<open>
  Up to U+00FF: the whitespace is U+0009 to U+000D, U+001C to U+0020, U+0085 and U+00A0;
  the decimal digits are \<open>0\<close> to \<open>9\<close>; the uppercase letters are \<open>A\<close> to \<open>Z\<close> and U+00C0
  to U+00DE without the multiplication sign; the lowercase letters are \<open>a\<close> to \<open>z\<close>,
  U+00AA, U+00B5, U+00BA and U+00DF to U+00FF without the division sign; there is no
  titlecase letter; and \<open>str.lower\<close> adds 32 to an uppercase letter and leaves every other
  code point as it is.
\<close>

definition isspace :: "unicode_tables \<Rightarrow> nat \<Rightarrow> bool" where
  "isspace U n =
     (if n < 256 then (9 \<le> n \<and> n \<le> 13) \<or> (28 \<le> n \<and> n \<le> 32) \<or> n = 133 \<or> n = 160
      else space_tab U n)"

definition isdecimal :: "unicode_tables \<Rightarrow> nat \<Rightarrow> bool" where
  "isdecimal U n = (if n < 256 then 48 \<le> n \<and> n \<le> 57 else decimal_tab U n)"

definition char_isupper :: "unicode_tables \<Rightarrow> nat \<Rightarrow> bool" where
  "char_isupper U n =
     (if n < 256 then (65 \<le> n \<and> n \<le> 90) \<or> (192 \<le> n \<and> n \<le> 214) \<or> (216 \<le> n \<and> n \<le> 222)
      else upper_tab U n)"

definition char_islower :: "unicode_tables \<Rightarrow> nat \<Rightarrow> bool" where
  "char_islower U n =
     (if n < 256 then (97 \<le> n \<and> n \<le> 122) \<or> n = 170 \<or> n = 181 \<or> n = 186 \<or>
                      (223 \<le> n \<and> n \<le> 246) \<or> (248 \<le> n \<and> n \<le> 255)
      else lower_tab U n)"

definition char_istitle :: "unicode_tables \<Rightarrow> nat \<Rightarrow> bool" where
  "char_istitle U n = (if n < 256 then False else title_tab U n)"

text \<open>
  \<open>s.lower()\<close>: code point by code point, from left to right. The first argument of the
  loop is the part of the string already passed.
\<close>

fun lower_from :: "unicode_tables \<Rightarrow> ustring \<Rightarrow> ustring \<Rightarrow> ustring" where
  "lower_from U before [] = []"
| "lower_from U before (n # after) =
     (if n < 256 then
        [if (65 \<le> n \<and> n \<le> 90) \<or> (192 \<le> n \<and> n \<le> 214) \<or> (216 \<le> n \<and> n \<le> 222)
         then n + 32 else n]
      else tolower_tab U before n after)
     @ lower_from U (before @ [n]) after"

definition str_lower :: "unicode_tables \<Rightarrow> ustring \<Rightarrow> ustring" where
  "str_lower U s = lower_from U [] s"

text \<open>
  \<open>s.isupper()\<close>: for a string of one character, whether the character is uppercase;
  otherwise, no character of \<open>s\<close> is lowercase or titlecase and at least one is uppercase.
\<close>

definition str_isupper :: "unicode_tables \<Rightarrow> ustring \<Rightarrow> bool" where
  "str_isupper U s =
     (case s of
        [n] \<Rightarrow> char_isupper U n
      | _ \<Rightarrow> list_all (\<lambda>n. \<not> char_islower U n \<and> \<not> char_istitle U n) s
             \<and> list_ex (char_isupper U) s)"

text \<open>
  Tables with nothing above U+00FF, for the examples: a string whose code points all stay
  below U+0100 is treated alike under any tables.
\<close>

definition bare_tables :: unicode_tables where
  "bare_tables =
     \<lparr>space_tab = (\<lambda>n. False), decimal_tab = (\<lambda>n. False), lower_tab = (\<lambda>n. False),
      upper_tab = (\<lambda>n. False), title_tab = (\<lambda>n. False),
      tolower_tab = (\<lambda>before n after. [n])\<rparr>"

text \<open>\<open>s.strip()\<close>: the whitespace at both ends is removed.\<close>

definition str_strip :: "unicode_tables \<Rightarrow> ustring \<Rightarrow> ustring" where
  "str_strip U s = rev (dropWhile (isspace U) (rev (dropWhile (isspace U) s)))"

text \<open>\<open>s.startswith(p)\<close>, \<open>s.endswith(p)\<close> and \<open>p in s\<close>\<close>

fun str_startswith :: "ustring \<Rightarrow> ustring \<Rightarrow> bool" where
  "str_startswith s [] = True"
| "str_startswith [] (p # ps) = False"
| "str_startswith (c # cs) (p # ps) = (c = p \<and> str_startswith cs ps)"

definition str_endswith :: "ustring \<Rightarrow> ustring \<Rightarrow> bool" where
  "str_endswith s p = str_startswith (rev s) (rev p)"

fun str_contains :: "ustring \<Rightarrow> ustring \<Rightarrow> bool" where
  "str_contains p [] = (p = [])"
| "str_contains p (c # cs) = (if str_startswith (c # cs) p then True else str_contains p cs)"

text \<open>
  \<open>s.split()\<close>: the maximal runs of characters that are not whitespace, in order. The
  second argument is the token being read.
\<close>

fun split_tokens :: "unicode_tables \<Rightarrow> ustring \<Rightarrow> ustring \<Rightarrow> ustring list" where
  "split_tokens U w [] = (if w = [] then [] else [w])"
| "split_tokens U w (c # cs) =
     (if isspace U c then (if w = [] then split_tokens U [] cs else w # split_tokens U [] cs)
      else split_tokens U (w @ [c]) cs)"

definition str_split :: "unicode_tables \<Rightarrow> ustring \<Rightarrow> ustring list" where
  "str_split U s = split_tokens U [] s"

text \<open>
  \<open>s.split(sep)\<close> for a separator of one character: the pieces between the separators,
  empty pieces included, so that the result is never empty. The second argument of the
  loop is the piece being read. The source splits at the newline, the code point 10.
\<close>

fun split_pieces :: "nat \<Rightarrow> ustring \<Rightarrow> ustring \<Rightarrow> ustring list" where
  "split_pieces sep w [] = [w]"
| "split_pieces sep w (c # cs) =
     (if c = sep then w # split_pieces sep [] cs else split_pieces sep (w @ [c]) cs)"

definition str_split_on :: "nat \<Rightarrow> ustring \<Rightarrow> ustring list" where
  "str_split_on sep s = split_pieces sep [] s"

section \<open>The text normalizer\<close>

text \<open>
  \<open>re.sub(r'\s+', ' ', t)\<close>: every maximal run of whitespace becomes one space.
\<close>

function re_sub_spaces :: "unicode_tables \<Rightarrow> ustring \<Rightarrow> ustring" where
  "re_sub_spaces U [] = []"
| "re_sub_spaces U (c # cs) =
     (if isspace U c then 32 # re_sub_spaces U (dropWhile (isspace U) cs)
      else c # re_sub_spaces U cs)"
  by pat_completeness auto
termination
  by (relation "measure (\<lambda>(U, s). length s)") (auto simp: length_dropWhile_le less_Suc_eq_le)

text \<open>
  \<^verbatim>\<open>
  def clean_text(text):
      if not text:
          return ""
      return re.sub(r'\s+', ' ', text.strip())
  \<close>
\<close>

definition clean_text :: "unicode_tables \<Rightarrow> ustring \<Rightarrow> ustring" where
  "clean_text U text = (if text = [] then [] else re_sub_spaces U (str_strip U text))"

section \<open>Regular expressions\<close>

text \<open>
  The patterns of the source use literals, the classes \<open>\d\<close>, \<open>\s\<close>, \<open>.\<close> and
  \<open>[ivx]\<close>, concatenation, alternation, the repetitions \<open>*\<close>, \<open>+\<close>, \<open>?\<close>,
  \<open>{1,2}\<close> and \<open>{3,}\<close>, groups, and the anchors \<open>^\<close> and \<open>$\<close>. The source only
  asks whether \<open>re.match\<close> finds a match, and for such patterns the backtracking matcher
  finds one exactly when some prefix of the string belongs to the language of the
  pattern; groups do not change that language.
\<close>

datatype rexp =
    Fail
  | Empty
  | Cls "nat \<Rightarrow> bool"
  | Alt rexp rexp
  | Cat rexp rexp
  | Rep rexp

fun nullable :: "rexp \<Rightarrow> bool" where
  "nullable Fail = False"
| "nullable Empty = True"
| "nullable (Cls P) = False"
| "nullable (Alt r s) = (nullable r \<or> nullable s)"
| "nullable (Cat r s) = (nullable r \<and> nullable s)"
| "nullable (Rep r) = True"

text \<open>What is left of a pattern once it has read the character \<open>c\<close>.\<close>

fun deriv :: "nat \<Rightarrow> rexp \<Rightarrow> rexp" where
  "deriv c Fail = Fail"
| "deriv c Empty = Fail"
| "deriv c (Cls P) = (if P c then Empty else Fail)"
| "deriv c (Alt r s) = Alt (deriv c r) (deriv c s)"
| "deriv c (Cat r s) =
     (if nullable r then Alt (Cat (deriv c r) s) (deriv c s) else Cat (deriv c r) s)"
| "deriv c (Rep r) = Cat (deriv c r) (Rep r)"

text \<open>
  A pattern is a regular expression matched at the start of the string (\<open>re.match\<close>
  anchors there, with or without a leading \<open>^\<close>), and may end in \<open>$\<close>, which holds at
  the end of the string and just before a newline that ends the string.
\<close>

datatype pattern = Pattern rexp | Pattern_Dollar rexp

fun match_prefix :: "rexp \<Rightarrow> ustring \<Rightarrow> bool" where
  "match_prefix r [] = nullable r"
| "match_prefix r (c # cs) = (if nullable r then True else match_prefix (deriv c r) cs)"

fun match_dollar :: "rexp \<Rightarrow> ustring \<Rightarrow> bool" where
  "match_dollar r [] = nullable r"
| "match_dollar r (c # cs) =
     (if nullable r \<and> c = 10 \<and> cs = [] then True else match_dollar (deriv c r) cs)"

text \<open>\<open>re.match(pattern, s)\<close> read as a truth value: whether there is a match.\<close>

fun re_match :: "pattern \<Rightarrow> ustring \<Rightarrow> bool" where
  "re_match (Pattern r) s = match_prefix r s"
| "re_match (Pattern_Dollar r) s = match_dollar r s"

text \<open>The notation of the patterns.\<close>

definition Lit :: "char \<Rightarrow> rexp" where
  "Lit c = Cls (\<lambda>x. x = of_char c)"

definition Digit :: "unicode_tables \<Rightarrow> rexp" where
  "Digit U = Cls (isdecimal U)"

definition Space :: "unicode_tables \<Rightarrow> rexp" where
  "Space U = Cls (isspace U)"

definition Dot :: rexp where
  "Dot = Cls (\<lambda>x. x \<noteq> 10)"

definition One_Of :: "string \<Rightarrow> rexp" where
  "One_Of cs = Cls (\<lambda>x. x \<in> set (ustr cs))"

definition Rep1 :: "rexp \<Rightarrow> rexp" where
  "Rep1 r = Cat r (Rep r)"

definition Opt :: "rexp \<Rightarrow> rexp" where
  "Opt r = Alt r Empty"

definition Seq :: "rexp list \<Rightarrow> rexp" where
  "Seq rs = foldr Cat rs Empty"

definition Word :: "string \<Rightarrow> rexp" where
  "Word w = Seq (map Lit w)"

definition Any_Of :: "rexp list \<Rightarrow> rexp" where
  "Any_Of rs = foldr Alt rs Fail"

section \<open>The heading classifier\<close>

datatype heading_level = H1 | H2 | H3

text \<open>
  \<^verbatim>\<open>
  skip_patterns = [
      r'^\d+$',  # Pure numbers
      r'^page\s+\d+',  # Page numbers
      r'^(c).*',  # Copyright; (c) stands for the sign U+00A9
      r'^www\.',  # URLs
      r'^http',  # URLs
      r'^\d{1,2}\s+(jan|feb|mar|apr|may|jun|jul|aug|sep|oct|nov|dec)',  # Dates
      r'\.{3,}',  # Multiple dots (TOC)
  ]
  \<close>
\<close>

definition skip_patterns :: "unicode_tables \<Rightarrow> pattern list" where
  "skip_patterns U = [
     Pattern_Dollar (Rep1 (Digit U)),
     Pattern (Seq [Word ''page'', Rep1 (Space U), Rep1 (Digit U)]),
     Pattern (Seq [Lit (CHR 0xA9), Rep Dot]),
     Pattern (Word ''www.''),
     Pattern (Word ''http''),
     Pattern (Seq [Digit U, Opt (Digit U), Rep1 (Space U),
       Any_Of (map Word [''jan'', ''feb'', ''mar'', ''apr'', ''may'', ''jun'',
                         ''jul'', ''aug'', ''sep'', ''oct'', ''nov'', ''dec''])]),
     Pattern (Seq [Lit (CHR ''.''), Lit (CHR ''.''), Lit (CHR ''.''), Rep (Lit (CHR ''.''))])
   ]"

text \<open>
  \<^verbatim>\<open>
  h1_patterns = [
      r'^(\d+)\.\s+(.+)',  # "1. Introduction"
      r'^(chapter\s+\d+)\s*:?\s*(.+)',  # "Chapter 1: Overview"
      r'^(part\s+[ivx]+)\s*:?\s*(.+)',  # "Part I: Background"
  ]
  h2_patterns = [ r'^(\d+\.\d+)\s+(.+)' ]
  h3_patterns = [ r'^(\d+\.\d+\.\d+)\s+(.+)' ]
  \<close>
\<close>

definition h1_patterns :: "unicode_tables \<Rightarrow> pattern list" where
  "h1_patterns U = [
     Pattern (Seq [Rep1 (Digit U), Lit (CHR ''.''), Rep1 (Space U), Rep1 Dot]),
     Pattern (Seq [Word ''chapter'', Rep1 (Space U), Rep1 (Digit U),
                   Rep (Space U), Opt (Lit (CHR '':'')), Rep (Space U), Rep1 Dot]),
     Pattern (Seq [Word ''part'', Rep1 (Space U), Rep1 (One_Of ''ivx''),
                   Rep (Space U), Opt (Lit (CHR '':'')), Rep (Space U), Rep1 Dot])
   ]"

definition h1_sections :: "ustring list" where
  "h1_sections = map ustr [
     ''introduction'', ''overview'', ''background'', ''summary'', ''conclusion'',
     ''references'', ''bibliography'', ''acknowledgements'', ''acknowledgments'',
     ''appendix'', ''index'', ''glossary'', ''abstract'', ''revision history'',
     ''table of contents'']"

definition h2_patterns :: "unicode_tables \<Rightarrow> pattern list" where
  "h2_patterns U = [
     Pattern (Seq [Rep1 (Digit U), Lit (CHR ''.''), Rep1 (Digit U), Rep1 (Space U), Rep1 Dot])
   ]"

definition h3_patterns :: "unicode_tables \<Rightarrow> pattern list" where
  "h3_patterns U = [
     Pattern (Seq [Rep1 (Digit U), Lit (CHR ''.''), Rep1 (Digit U), Lit (CHR ''.''),
                   Rep1 (Digit U), Rep1 (Space U), Rep1 Dot])
   ]"

text \<open>
  \<open>detect_intelligent_heading(line, page_num)\<close> returns \<open>None\<close> or a pair of the
  level (one of the strings \<open>"H1"\<close>, \<open>"H2"\<close>, \<open>"H3"\<close>) and the heading text. Each
  \<open>for pattern in ...: if re.match(pattern, line_lower): return ...\<close> is a search of the
  list for a pattern that matches. The page number is a parameter that the body never
  reads.
\<close>

definition detect_intelligent_heading ::
  "unicode_tables \<Rightarrow> ustring \<Rightarrow> int \<Rightarrow> (heading_level \<times> ustring) option" where
  "detect_intelligent_heading U line0 page_num =
    (let line = clean_text U line0;
         line_lower = str_lower U line
     in
       if length line < 3 \<or> length line > 200 then None
       else if list_ex (\<lambda>pattern. re_match pattern line_lower) (skip_patterns U) then None
       else if list_ex (\<lambda>pattern. re_match pattern line_lower) (h1_patterns U)
         then Some (H1, line)
       else if str_strip U line_lower \<in> set h1_sections then Some (H1, line)
       else if list_ex (\<lambda>pattern. re_match pattern line_lower) (h2_patterns U)
         then Some (H2, line)
       else if list_ex (\<lambda>pattern. re_match pattern line_lower) (h3_patterns U)
         then Some (H3, line)
       else if str_isupper U line \<and> 5 \<le> length line \<and> length line \<le> 60
                 \<and> length (str_split U line) \<le> 8 then Some (H1, line)
       else if str_endswith line (ustr '':'') \<and> 10 \<le> length line \<and> length line \<le> 80
                 \<and> length (str_split U line) \<le> 10 then Some (H2, str_strip U (butlast line))
       else None)"

text \<open>
  The function has six \<open>return\<close> statements that give a heading, one for each rule, and
  comes to them in the order in which they are written. \<open>deciding_rule\<close> is the same
  chain of tests, and names the statement that returns; it is \<open>None\<close> where the function
  returns \<open>None\<close>.
\<close>

datatype rule = H1_Pattern | H1_Section | H2_Pattern | H3_Pattern | All_Caps | Colon_End

definition deciding_rule :: "unicode_tables \<Rightarrow> ustring \<Rightarrow> rule option" where
  "deciding_rule U line0 =
    (let line = clean_text U line0;
         line_lower = str_lower U line
     in
       if length line < 3 \<or> length line > 200 then None
       else if list_ex (\<lambda>pattern. re_match pattern line_lower) (skip_patterns U) then None
       else if list_ex (\<lambda>pattern. re_match pattern line_lower) (h1_patterns U)
         then Some H1_Pattern
       else if str_strip U line_lower \<in> set h1_sections then Some H1_Section
       else if list_ex (\<lambda>pattern. re_match pattern line_lower) (h2_patterns U)
         then Some H2_Pattern
       else if list_ex (\<lambda>pattern. re_match pattern line_lower) (h3_patterns U)
         then Some H3_Pattern
       else if str_isupper U line \<and> 5 \<le> length line \<and> length line \<le> 60
                 \<and> length (str_split U line) \<le> 8 then Some All_Caps
       else if str_endswith line (ustr '':'') \<and> 10 \<le> length line \<and> length line \<le> 80
                 \<and> length (str_split U line) \<le> 10 then Some Colon_End
       else None)"

text \<open>What the \<open>return\<close> statement of a rule gives for the normalized line.\<close>

fun rule_result :: "unicode_tables \<Rightarrow> rule \<Rightarrow> ustring \<Rightarrow> heading_level \<times> ustring" where
  "rule_result U H1_Pattern line = (H1, line)"
| "rule_result U H1_Section line = (H1, line)"
| "rule_result U H2_Pattern line = (H2, line)"
| "rule_result U H3_Pattern line = (H3, line)"
| "rule_result U All_Caps line = (H1, line)"
| "rule_result U Colon_End line = (H2, str_strip U (butlast line))"

section \<open>The title selector\<close>

text \<open>
  The source opens the document with an external library. The model takes what the
  source reads from it: the list of pages, each given by the result of its
  \<open>extract_text()\<close>, which is \<open>None\<close> or a string.
\<close>

type_synonym pdf_pages = "ustring option list"

definition title_skips :: "ustring list" where
  "title_skips = map ustr
     [''copyright'', ''version'', ''page'', [CHR 0xA9], ''date'', ''www'', ''http'']"

text \<open>
  The three nested conditions under which the loop returns the line: the length and
  token bounds, no metadata word inside the lowercased line, and neither
  \<open>re.match(r'^\d+\.', line)\<close> nor a lowercased line that starts with \<open>table of\<close>.
\<close>

definition title_like :: "unicode_tables \<Rightarrow> ustring \<Rightarrow> bool" where
  "title_like U line =
     ((15 \<le> length line \<and> length line \<le> 150 \<and> 3 \<le> length (str_split U line))
      \<and> \<not> list_ex (\<lambda>skip. str_contains skip (str_lower U line)) title_skips
      \<and> (\<not> re_match (Pattern (Seq [Rep1 (Digit U), Lit (CHR ''.'')])) line
           \<and> \<not> str_startswith (str_lower U line) (ustr ''table of'')))"

text \<open>\<open>for line in lines[:15]: if ...: return line + "  "\<close>, then \<open>return ""\<close>\<close>

fun title_loop :: "unicode_tables \<Rightarrow> ustring list \<Rightarrow> ustring" where
  "title_loop U [] = []"
| "title_loop U (line # lines) =
     (if title_like U line then line @ ustr ''  '' else title_loop U lines)"

text \<open>
  \<open>[clean_text(line) for line in first_page_text.split('\n') if clean_text(line)]\<close>
\<close>

definition first_page_lines :: "unicode_tables \<Rightarrow> ustring \<Rightarrow> ustring list" where
  "first_page_lines U first_page_text =
     filter (\<lambda>l. l \<noteq> []) (map (clean_text U) (str_split_on 10 first_page_text))"

definition extract_title_smart :: "unicode_tables \<Rightarrow> pdf_pages \<Rightarrow> ustring" where
  "extract_title_smart U pages =
     (case pages of
        [] \<Rightarrow> []
      | page # _ \<Rightarrow>
          (case page of
             None \<Rightarrow> []
           | Some first_page_text \<Rightarrow>
               if first_page_text = [] then []
               else title_loop U (take 15 (first_page_lines U first_page_text))))"

section \<open>The outline builder\<close>

text \<open>
  An outline entry is the dictionary with the keys \<open>"level"\<close>, \<open>"text"\<close> and
  \<open>"page"\<close>.
\<close>

record heading_entry =
  level :: heading_level
  text_content :: ustring
  page :: int

text \<open>
  The loop over the lines of one page; \<open>outline.append\<close> adds at the end of the list
  that is passed along.
\<close>

fun lines_loop ::
  "unicode_tables \<Rightarrow> int \<Rightarrow> ustring list \<Rightarrow> heading_entry list \<Rightarrow> heading_entry list" where
  "lines_loop U page_num [] outline = outline"
| "lines_loop U page_num (line # lines) outline =
     (let line_clean = clean_text U line in
      if line_clean = [] \<or> length line_clean < 3 then lines_loop U page_num lines outline
      else (case detect_intelligent_heading U line_clean page_num of
              None \<Rightarrow> lines_loop U page_num lines outline
            | Some (lvl, txt) \<Rightarrow>
                lines_loop U page_num lines
                  (outline @ [\<lparr>level = lvl, text_content = txt, page = page_num\<rparr>])))"

text \<open>
  The loop over \<open>enumerate(pdf.pages, 1)\<close>; a page whose text is \<open>None\<close> or empty is
  passed over by \<open>continue\<close>.
\<close>

fun pages_loop ::
  "unicode_tables \<Rightarrow> int \<Rightarrow> pdf_pages \<Rightarrow> heading_entry list \<Rightarrow> heading_entry list" where
  "pages_loop U page_num [] outline = outline"
| "pages_loop U page_num (page_text # pages) outline =
     (case page_text of
        None \<Rightarrow> pages_loop U (page_num + 1) pages outline
      | Some txt \<Rightarrow>
          if txt = [] then pages_loop U (page_num + 1) pages outline
          else pages_loop U (page_num + 1) pages
                 (lines_loop U page_num (str_split_on 10 txt) outline))"

text \<open>The list \<open>outline\<close> as it stands before the duplicates are removed.\<close>

definition collect_outline :: "unicode_tables \<Rightarrow> pdf_pages \<Rightarrow> heading_entry list" where
  "collect_outline U pages = pages_loop U 1 pages []"

text \<open>
  \<^verbatim>\<open>
  seen = set()
  unique_outline = []
  for item in outline:
      key = (item["level"], item["text"], item["page"])
      if key not in seen:
          seen.add(key)
          unique_outline.append(item)
  \<close>
\<close>

definition entry_key :: "heading_entry \<Rightarrow> heading_level \<times> ustring \<times> int" where
  "entry_key item = (level item, text_content item, page item)"

fun unique_loop ::
  "heading_entry list \<Rightarrow> (heading_level \<times> ustring \<times> int) set \<Rightarrow> heading_entry list
     \<Rightarrow> heading_entry list" where
  "unique_loop [] seen unique_outline = unique_outline"
| "unique_loop (item # outline) seen unique_outline =
     (let key = entry_key item in
      if key \<notin> seen then unique_loop outline (insert key seen) (unique_outline @ [item])
      else unique_loop outline seen unique_outline)"

definition extract_outline_exact :: "unicode_tables \<Rightarrow> pdf_pages \<Rightarrow> heading_entry list" where
  "extract_outline_exact U pages = unique_loop (collect_outline U pages) {} []"

text \<open>
  The position in \<open>outline\<close> of the first entry with the key \<open>k\<close> (the length of the
  list when there is none).
\<close>

definition first_index :: "heading_level \<times> ustring \<times> int \<Rightarrow> heading_entry list \<Rightarrow> nat" where
  "first_index k outline = length (takeWhile (\<lambda>item. entry_key item \<noteq> k) outline)"

section \<open>The language of a regular expression\<close>

inductive_set star :: "ustring set \<Rightarrow> ustring set" for A :: "ustring set" where
  star_empty: "[] \<in> star A"
| star_more: "u \<in> A \<Longrightarrow> v \<in> star A \<Longrightarrow> u @ v \<in> star A"

fun lang :: "rexp \<Rightarrow> ustring set" where
  "lang Fail = {}"
| "lang Empty = {[]}"
| "lang (Cls P) = {[c] |c. P c}"
| "lang (Alt r s) = lang r \<union> lang s"
| "lang (Cat r s) = {u @ v |u v. u \<in> lang r \<and> v \<in> lang s}"
| "lang (Rep r) = star (lang r)"

section \<open>Properties of the normalizer\<close>

lemma isspace_blank: "isspace U 32"
  by (simp add: isspace_def)

lemma re_sub_spaces_Nil_iff: "re_sub_spaces U s = [] \<longleftrightarrow> s = []"
  by (cases s) auto

lemma hd_re_sub_spaces:
  "s \<noteq> [] \<Longrightarrow> \<not> isspace U (hd s) \<Longrightarrow> hd (re_sub_spaces U s) = hd s"
  by (cases s) auto

lemma dropWhile_isspace_head:
  "dropWhile (isspace U) s = [] \<or> \<not> isspace U (hd (dropWhile (isspace U) s))"
  using hd_dropWhile [of "isspace U" s] by blast

lemma dropWhile_isspace_id:
  "s = [] \<or> \<not> isspace U (hd s) \<Longrightarrow> dropWhile (isspace U) s = s"
  by (cases s) auto

lemma re_sub_spaces_head:
  "s = [] \<or> \<not> isspace U (hd s) \<Longrightarrow>
   re_sub_spaces U s = [] \<or> \<not> isspace U (hd (re_sub_spaces U s))"
  by (cases s) auto

lemma re_sub_spaces_idem: "re_sub_spaces U (re_sub_spaces U s) = re_sub_spaces U s"
proof (induction U s rule: re_sub_spaces.induct)
  case 1
  show ?case by simp
next
  case (2 U c cs)
  show ?case
  proof (cases "isspace U c")
    case True
    let ?t = "re_sub_spaces U (dropWhile (isspace U) cs)"
    have "?t = [] \<or> \<not> isspace U (hd ?t)"
      by (rule re_sub_spaces_head) (rule dropWhile_isspace_head)
    then have "dropWhile (isspace U) ?t = ?t"
      by (rule dropWhile_isspace_id)
    with True 2 show ?thesis
      by (simp add: isspace_blank)
  next
    case False
    with 2 show ?thesis by simp
  qed
qed

lemma last_re_sub_spaces:
  "s \<noteq> [] \<Longrightarrow> \<not> isspace U (last s) \<Longrightarrow> last (re_sub_spaces U s) = last s"
proof (induction U s rule: re_sub_spaces.induct)
  case 1
  then show ?case by simp
next
  case (2 U c cs)
  show ?case
  proof (cases "isspace U c")
    case True
    with 2 have ne: "cs \<noteq> []" by auto
    have "\<not> (\<forall>x\<in>set cs. isspace U x)"
      using 2(4) ne last_in_set [of cs] by auto
    then have dne: "dropWhile (isspace U) cs \<noteq> []"
      by simp
    then have dl: "last (dropWhile (isspace U) cs) = last cs"
      by (metis last_appendR takeWhile_dropWhile_id)
    have il: "last (re_sub_spaces U (dropWhile (isspace U) cs)) = last (dropWhile (isspace U) cs)"
      using 2(1) True dne dl 2(4) ne by simp
    have rne: "re_sub_spaces U (dropWhile (isspace U) cs) \<noteq> []"
      using dne by (simp only: re_sub_spaces_Nil_iff not_False_eq_True)
    have "last (re_sub_spaces U (c # cs)) = last (re_sub_spaces U (dropWhile (isspace U) cs))"
      using True rne by simp
    also have "\<dots> = last (c # cs)"
      using il dl ne by simp
    finally show ?thesis .
  next
    case False
    with 2 show ?thesis
      by (cases cs) (auto simp: re_sub_spaces_Nil_iff)
  qed
qed

lemma str_strip_head: "str_strip U s = [] \<or> \<not> isspace U (hd (str_strip U s))"
proof (cases "str_strip U s = []")
  case True
  then show ?thesis by simp
next
  case False
  let ?d = "dropWhile (isspace U) s"
  let ?k = "takeWhile (isspace U) (rev ?d)"
  have eq: "?d = str_strip U s @ rev ?k"
    unfolding str_strip_def
    by (metis rev_append rev_rev_ident takeWhile_dropWhile_id)
  from False have "hd ?d = hd (str_strip U s)"
    by (subst eq) simp
  moreover have "?d \<noteq> []"
  proof
    assume a: "?d = []"
    show False using False unfolding str_strip_def a by simp
  qed
  ultimately show ?thesis
    using hd_dropWhile [of "isspace U" s] by auto
qed

lemma str_strip_last: "str_strip U s = [] \<or> \<not> isspace U (last (str_strip U s))"
proof (cases "str_strip U s = []")
  case True
  then show ?thesis by simp
next
  case False
  let ?r = "dropWhile (isspace U) (rev (dropWhile (isspace U) s))"
  from False have ne: "?r \<noteq> []"
    by (simp add: str_strip_def)
  then have "\<not> isspace U (hd ?r)"
    using hd_dropWhile [of "isspace U" "rev (dropWhile (isspace U) s)"] by blast
  moreover have "last (str_strip U s) = hd ?r"
    using ne by (simp add: str_strip_def last_rev)
  ultimately show ?thesis by simp
qed

lemma str_strip_id:
  assumes "s = [] \<or> (\<not> isspace U (hd s) \<and> \<not> isspace U (last s))"
  shows "str_strip U s = s"
proof (cases "s = []")
  case True
  then show ?thesis by (simp add: str_strip_def)
next
  case False
  with assms have h: "\<not> isspace U (hd s)" and l: "\<not> isspace U (last s)"
    by auto
  from False h have d: "dropWhile (isspace U) s = s"
    by (cases s) auto
  from False l have "dropWhile (isspace U) (rev s) = rev s"
    by (cases "rev s") (auto simp: last_rev [symmetric] hd_rev)
  with d show ?thesis
    by (simp add: str_strip_def)
qed

lemma clean_text_trimmed:
  "clean_text U s = [] \<or> (\<not> isspace U (hd (clean_text U s)) \<and> \<not> isspace U (last (clean_text U s)))"
proof (cases "s = [] \<or> str_strip U s = []")
  case True
  then show ?thesis by (auto simp: clean_text_def)
next
  case False
  then have ne: "str_strip U s \<noteq> []" and c: "clean_text U s = re_sub_spaces U (str_strip U s)"
    by (auto simp: clean_text_def)
  from ne have h: "\<not> isspace U (hd (str_strip U s))" and l: "\<not> isspace U (last (str_strip U s))"
    using str_strip_head [of U s] str_strip_last [of U s] by auto
  from ne h l show ?thesis
    by (simp add: c hd_re_sub_spaces last_re_sub_spaces)
qed

lemma clean_text_idem: "clean_text U (clean_text U s) = clean_text U s"
proof (cases "clean_text U s = []")
  case True
  then show ?thesis by (simp add: clean_text_def)
next
  case False
  have st: "str_strip U (clean_text U s) = clean_text U s"
    by (rule str_strip_id) (rule clean_text_trimmed)
  have "re_sub_spaces U (clean_text U s) = clean_text U s"
    by (auto simp: clean_text_def re_sub_spaces_idem)
  with False st show ?thesis
    by (simp add: clean_text_def [of U "clean_text U s"])
qed

text \<open>
  C5. The text normalizer is idempotent: normalizing a normalized string changes nothing.
\<close>

theorem C5_clean_text_idempotent: "clean_text U (clean_text U s) = clean_text U s"
  by (rule clean_text_idem)

section \<open>The matcher and the language of a pattern\<close>

lemma nullable_lang: "nullable r \<longleftrightarrow> [] \<in> lang r"
  by (induction r) (auto intro: star.intros)

lemma star_cons:
  "c # u \<in> star A \<longleftrightarrow> (\<exists>v w. u = v @ w \<and> c # v \<in> A \<and> w \<in> star A)"
proof
  assume "c # u \<in> star A"
  then show "\<exists>v w. u = v @ w \<and> c # v \<in> A \<and> w \<in> star A"
  proof (induction "c # u" arbitrary: u rule: star.induct)
    case (star_more x y)
    show ?case
    proof (cases x)
      case Nil
      with star_more show ?thesis by simp
    next
      case (Cons a x')
      with star_more show ?thesis by auto
    qed
  qed
next
  assume "\<exists>v w. u = v @ w \<and> c # v \<in> A \<and> w \<in> star A"
  then obtain v w where "u = v @ w" "c # v \<in> A" "w \<in> star A" by blast
  then show "c # u \<in> star A"
    using star_more [of "c # v" A w] by simp
qed

lemma deriv_lang: "u \<in> lang (deriv c r) \<longleftrightarrow> c # u \<in> lang r"
proof (induction r arbitrary: u)
  case (Cat r s)
  show ?case
    by (auto simp: Cat nullable_lang Cons_eq_append_conv)
next
  case (Rep r)
  show ?case
    by (auto simp: Rep star_cons)
qed auto

lemma match_prefix_lang:
  "match_prefix r s \<longleftrightarrow> (\<exists>u v. s = u @ v \<and> u \<in> lang r)"
proof (induction s arbitrary: r)
  case Nil
  show ?case by (simp add: nullable_lang)
next
  case (Cons c cs)
  show ?case
  proof (cases "nullable r")
    case True
    then have "c # cs = [] @ (c # cs) \<and> [] \<in> lang r"
      by (simp add: nullable_lang)
    with True show ?thesis by (metis match_prefix.simps(2))
  next
    case False
    then have "match_prefix r (c # cs) \<longleftrightarrow> (\<exists>u v. cs = u @ v \<and> c # u \<in> lang r)"
      by (simp add: Cons deriv_lang)
    also have "\<dots> \<longleftrightarrow> (\<exists>u v. c # cs = u @ v \<and> u \<in> lang r)"
      using False by (auto simp: nullable_lang Cons_eq_append_conv)
    finally show ?thesis .
  qed
qed

lemma match_dollar_lang:
  "match_dollar r s \<longleftrightarrow> (\<exists>u. u \<in> lang r \<and> (s = u \<or> s = u @ [10]))"
proof (induction s arbitrary: r)
  case Nil
  show ?case by (auto simp: nullable_lang)
next
  case (Cons c cs)
  have step: "match_dollar (deriv c r) cs \<longleftrightarrow>
      (\<exists>u. c # u \<in> lang r \<and> (cs = u \<or> cs = u @ [10]))"
    by (simp add: Cons deriv_lang)
  show ?case
  proof (cases "nullable r \<and> c = 10 \<and> cs = []")
    case True
    then have "[] \<in> lang r \<and> c # cs = [] @ [10]"
      by (simp add: nullable_lang)
    with True show ?thesis by (metis match_dollar.simps(2))
  next
    case False
    then have "match_dollar r (c # cs) \<longleftrightarrow>
        (\<exists>u. c # u \<in> lang r \<and> (cs = u \<or> cs = u @ [10]))"
      using step by auto
    also have "\<dots> \<longleftrightarrow> (\<exists>u. u \<in> lang r \<and> (c # cs = u \<or> c # cs = u @ [10]))"
    proof
      assume "\<exists>u. c # u \<in> lang r \<and> (cs = u \<or> cs = u @ [10])"
      then obtain u where "c # u \<in> lang r" "cs = u \<or> cs = u @ [10]" by blast
      then have "c # u \<in> lang r \<and> (c # cs = c # u \<or> c # cs = (c # u) @ [10])"
        by auto
      then show "\<exists>u. u \<in> lang r \<and> (c # cs = u \<or> c # cs = u @ [10])" by blast
    next
      assume "\<exists>u. u \<in> lang r \<and> (c # cs = u \<or> c # cs = u @ [10])"
      then obtain u where u: "u \<in> lang r" "c # cs = u \<or> c # cs = u @ [10]" by blast
      show "\<exists>u. c # u \<in> lang r \<and> (cs = u \<or> cs = u @ [10])"
      proof (cases u)
        case Nil
        with u False show ?thesis by (auto simp: nullable_lang)
      next
        case (Cons a u')
        with u show ?thesis by auto
      qed
    qed
    finally show ?thesis .
  qed
qed

lemma lang_Lit: "lang (Lit c) = {[of_char c]}"
  by (auto simp: Lit_def)

lemma star_class: "u \<in> star {[c] |c. P c} \<longleftrightarrow> (\<forall>c\<in>set u. P c)"
proof
  assume "u \<in> star {[c] |c. P c}"
  then show "\<forall>c\<in>set u. P c"
    by (induction rule: star.induct) auto
next
  assume "\<forall>c\<in>set u. P c"
  then show "u \<in> star {[c] |c. P c}"
  proof (induction u)
    case Nil
    show ?case by (rule star_empty)
  next
    case (Cons a u)
    then have "[a] \<in> {[c] |c. P c}" "u \<in> star {[c] |c. P c}" by auto
    then have "[a] @ u \<in> star {[c] |c. P c}" by (rule star_more)
    then show ?case by simp
  qed
qed

lemma lang_Rep_Cls: "lang (Rep (Cls P)) = {u. \<forall>c\<in>set u. P c}"
  by (auto simp: star_class)

lemma lang_Rep1_Cls: "lang (Rep1 (Cls P)) = {u. u \<noteq> [] \<and> (\<forall>c\<in>set u. P c)}"
proof (rule set_eqI)
  fix u
  have "u \<in> lang (Rep1 (Cls P)) \<longleftrightarrow> (\<exists>c v. u = c # v \<and> P c \<and> (\<forall>x\<in>set v. P x))"
    unfolding Rep1_def lang.simps by (simp add: star_class) (metis append_Cons append_Nil)
  also have "\<dots> \<longleftrightarrow> u \<noteq> [] \<and> (\<forall>c\<in>set u. P c)"
    by (cases u) simp_all
  finally show "u \<in> lang (Rep1 (Cls P)) \<longleftrightarrow> u \<in> {u. u \<noteq> [] \<and> (\<forall>c\<in>set u. P c)}"
    by simp
qed

lemma lang_Seq_Nil: "lang (Seq []) = {[]}"
  by (simp add: Seq_def)

lemma lang_Seq_Cons: "lang (Seq (r # rs)) = {u @ v |u v. u \<in> lang r \<and> v \<in> lang (Seq rs)}"
  by (simp add: Seq_def)

lemma lang_Word: "lang (Word w) = {ustr w}"
  by (induction w) (auto simp: Word_def ustr_def lang_Seq_Nil lang_Seq_Cons lang_Lit)

lemma lang_Opt: "lang (Opt r) = insert [] (lang r)"
  by (auto simp: Opt_def)

lemma match_Word: "match_prefix (Word w) s \<Longrightarrow> \<exists>rest. s = ustr w @ rest"
  by (auto simp: match_prefix_lang lang_Word)

lemma match_Seq_Word: "match_prefix (Seq (Word w # rs)) s \<Longrightarrow> \<exists>rest. s = ustr w @ rest"
  by (auto simp: match_prefix_lang lang_Seq_Cons lang_Word)

lemma match_Seq_Lit: "match_prefix (Seq (Lit c # rs)) s \<Longrightarrow> \<exists>rest. s = of_char c # rest"
  by (auto simp: match_prefix_lang lang_Seq_Cons lang_Lit)

lemma match_Seq_digits:
  assumes "match_prefix (Seq (Rep1 (Digit U) # Lit c # rs)) s"
  shows "\<exists>ds rest. s = ds @ of_char c # rest \<and> ds \<noteq> [] \<and> (\<forall>x\<in>set ds. isdecimal U x)
      \<and> match_prefix (Seq rs) rest"
proof -
  from assms obtain u v where s: "s = u @ v" and u: "u \<in> lang (Seq (Rep1 (Digit U) # Lit c # rs))"
    unfolding match_prefix_lang by blast
  from u obtain ds t where u1: "u = ds @ t" and ds: "ds \<in> lang (Rep1 (Digit U))"
      and t: "t \<in> lang (Seq (Lit c # rs))"
    unfolding lang_Seq_Cons [of "Rep1 (Digit U)"] by blast
  from t obtain w where t1: "t = of_char c # w" and w: "w \<in> lang (Seq rs)"
    unfolding lang_Seq_Cons lang_Lit by auto
  from ds have d: "ds \<noteq> [] \<and> (\<forall>x\<in>set ds. isdecimal U x)"
    unfolding Digit_def lang_Rep1_Cls by simp
  have "match_prefix (Seq rs) (w @ v)"
    unfolding match_prefix_lang using w by blast
  moreover have "s = ds @ of_char c # (w @ v)"
    by (simp add: s u1 t1)
  ultimately show ?thesis using d by blast
qed

section \<open>No heading pattern of level H1 is excluded\<close>

lemma not_decimal_codes:
  "\<not> isdecimal U 46" "\<not> isdecimal U 10" "\<not> isdecimal U 112"
  "\<not> isdecimal U 99" "\<not> isdecimal U 119" "\<not> isdecimal U 104" "\<not> isdecimal U 169"
  by (simp_all add: isdecimal_def)

lemma not_space_dot: "\<not> isspace U 46"
  by (simp add: isspace_def)

lemma split_at_first_unique:
  assumes "\<forall>x\<in>set a. P x" "\<forall>x\<in>set b. P x" "\<not> P c" "\<not> P d"
    and "a @ c # r = b @ d # r'"
  shows "a = b \<and> c = d \<and> r = r'"
proof -
  have "takeWhile P (a @ c # r) = a" "takeWhile P (b @ d # r') = b"
    using assms(1-4) by (simp_all add: takeWhile_append2)
  with assms(5) have "a = b" by simp
  with assms(5) show ?thesis by simp
qed

lemma match_Seq_space:
  assumes "match_prefix (Seq (Rep1 (Space U) # rs)) t"
  shows "\<exists>w t'. t = w # t' \<and> isspace U w"
proof -
  from assms obtain u v where t: "t = u @ v" and u: "u \<in> lang (Seq (Rep1 (Space U) # rs))"
    unfolding match_prefix_lang by blast
  from u obtain ws z where "u = ws @ z" "ws \<in> lang (Rep1 (Space U))"
    unfolding lang_Seq_Cons by blast
  then have "u = ws @ z" "ws \<noteq> []" "\<forall>x\<in>set ws. isspace U x"
    unfolding Space_def lang_Rep1_Cls by simp_all
  then show ?thesis
    using t by (cases ws) auto
qed

lemma numbered_shape:
  assumes "match_prefix (Seq [Rep1 (Digit U), Lit (CHR ''.''), Rep1 (Space U), Rep1 Dot]) s"
  shows "\<exists>ds w t. s = ds @ 46 # w # t \<and> ds \<noteq> [] \<and> (\<forall>x\<in>set ds. isdecimal U x)
           \<and> isspace U w"
proof -
  from match_Seq_digits [OF assms] obtain ds rest where
    "s = ds @ 46 # rest" "ds \<noteq> []" "\<forall>x\<in>set ds. isdecimal U x"
    "match_prefix (Seq [Rep1 (Space U), Rep1 Dot]) rest"
    by auto
  moreover from match_Seq_space [OF this(4)] obtain w t where "rest = w # t" "isspace U w"
    by blast
  ultimately show ?thesis by blast
qed

lemma digits_dollar_shape:
  assumes "match_dollar (Rep1 (Digit U)) s"
  shows "\<exists>ds. ds \<noteq> [] \<and> (\<forall>x\<in>set ds. isdecimal U x) \<and> (s = ds \<or> s = ds @ [10])"
  using assms unfolding match_dollar_lang Digit_def lang_Rep1_Cls by blast

lemma lang_Any_Of: "lang (Any_Of rs) = (\<Union>r\<in>set rs. lang r)"
  by (induction rs) (simp_all add: Any_Of_def)

text \<open>
  A line that the date pattern matches: digits and whitespace, then the first letter of
  the name of a month, which is neither a digit nor whitespace nor a dot.
\<close>

lemma date_shape:
  assumes "match_prefix (Seq [Digit U, Opt (Digit U), Rep1 (Space U),
         Any_Of (map Word [''jan'', ''feb'', ''mar'', ''apr'', ''may'', ''jun'',
                           ''jul'', ''aug'', ''sep'', ''oct'', ''nov'', ''dec''])]) s"
  shows "\<exists>pre m t. s = pre @ m # t \<and> pre \<noteq> [] \<and> isdecimal U (hd pre)
           \<and> (\<forall>x\<in>set pre. isdecimal U x \<or> isspace U x)
           \<and> \<not> (isdecimal U m \<or> isspace U m) \<and> m \<noteq> 46"
proof -
  let ?months = "Any_Of (map Word [''jan'', ''feb'', ''mar'', ''apr'', ''may'', ''jun'',
                           ''jul'', ''aug'', ''sep'', ''oct'', ''nov'', ''dec''])"
  from assms obtain u v where s: "s = u @ v"
      and u: "u \<in> lang (Seq [Digit U, Opt (Digit U), Rep1 (Space U), ?months])"
    unfolding match_prefix_lang by blast
  from u obtain a u1 where a: "u = a @ u1" "a \<in> lang (Digit U)"
      and u1: "u1 \<in> lang (Seq [Opt (Digit U), Rep1 (Space U), ?months])"
    unfolding lang_Seq_Cons [of "Digit U"] by blast
  from u1 obtain b u2 where b: "u1 = b @ u2" "b \<in> lang (Opt (Digit U))"
      and u2: "u2 \<in> lang (Seq [Rep1 (Space U), ?months])"
    unfolding lang_Seq_Cons [of "Opt (Digit U)"] by blast
  from u2 obtain ws u3 where ws: "u2 = ws @ u3" "ws \<in> lang (Rep1 (Space U))"
      and u3: "u3 \<in> lang (Seq [?months])"
    unfolding lang_Seq_Cons [of "Rep1 (Space U)"] by blast
  from u3 have "u3 \<in> lang ?months"
    by (simp add: lang_Seq_Cons lang_Seq_Nil)
  then have "u3 \<in> ustr ` {''jan'', ''feb'', ''mar'', ''apr'', ''may'', ''jun'',
                           ''jul'', ''aug'', ''sep'', ''oct'', ''nov'', ''dec''}"
    by (auto simp: lang_Any_Of lang_Word)
  then obtain m t where m: "u3 = m # t" "m \<in> {106, 102, 109, 97, 115, 111, 110, 100}"
    by (auto simp: ustr_def)
  from m(2) have mq: "\<not> (isdecimal U m \<or> isspace U m)" "m \<noteq> 46"
    by (auto simp: isdecimal_def isspace_def)
  from ws(2) have wsp: "\<forall>x\<in>set ws. isspace U x"
    unfolding Space_def lang_Rep1_Cls by simp
  from a(2) obtain d where d: "a = [d]" "isdecimal U d"
    unfolding Digit_def by auto
  from b(2) have bd: "\<forall>x\<in>set b. isdecimal U x"
    unfolding lang_Opt Digit_def by auto
  let ?pre = "a @ b @ ws"
  have "s = ?pre @ m # (t @ v)"
    by (simp add: s a(1) b(1) ws(1) m(1))
  moreover have "?pre \<noteq> []" "isdecimal U (hd ?pre)"
    using d by simp_all
  moreover have "\<forall>x\<in>set ?pre. isdecimal U x \<or> isspace U x"
    using d bd wsp by auto
  ultimately show ?thesis using mq by blast
qed

lemma skip_patterns_first:
  assumes "list_ex (\<lambda>pattern. re_match pattern s) (skip_patterns U)"
  shows "s \<noteq> [] \<and> (isdecimal U (hd s) \<or> hd s = 169 \<or> hd s = 119 \<or> hd s = 104
           \<or> hd s = 46 \<or> (\<exists>rest. s = ustr ''page'' @ rest))"
proof -
  from assms consider
      "match_dollar (Rep1 (Digit U)) s"
    | "match_prefix (Seq [Word ''page'', Rep1 (Space U), Rep1 (Digit U)]) s"
    | "match_prefix (Seq [Lit (CHR 0xA9), Rep Dot]) s"
    | "match_prefix (Word ''www.'') s"
    | "match_prefix (Word ''http'') s"
    | "match_prefix (Seq [Digit U, Opt (Digit U), Rep1 (Space U),
         Any_Of (map Word [''jan'', ''feb'', ''mar'', ''apr'', ''may'', ''jun'',
                           ''jul'', ''aug'', ''sep'', ''oct'', ''nov'', ''dec''])]) s"
    | "match_prefix (Seq [Lit (CHR ''.''), Lit (CHR ''.''), Lit (CHR ''.''),
         Rep (Lit (CHR ''.''))]) s"
    unfolding skip_patterns_def by auto
  then show ?thesis
  proof cases
    case 1
    from digits_dollar_shape [OF 1] show ?thesis
      by (auto simp: neq_Nil_conv)
  next
    case 2
    from match_Seq_Word [OF 2] obtain rest where "s = ustr ''page'' @ rest" by blast
    moreover from this have "s \<noteq> []" by (simp add: ustr_def)
    ultimately show ?thesis by blast
  next
    case 3
    from match_Seq_Lit [OF 3] show ?thesis by auto
  next
    case 4
    from match_Word [OF 4] show ?thesis by (auto simp: ustr_def)
  next
    case 5
    from match_Word [OF 5] show ?thesis by (auto simp: ustr_def)
  next
    case 6
    from date_shape [OF 6] show ?thesis
      by (auto simp: neq_Nil_conv)
  next
    case 7
    from match_Seq_Lit [OF 7] show ?thesis by auto
  qed
qed

lemma numbered_not_skipped:
  assumes n: "match_prefix (Seq [Rep1 (Digit U), Lit (CHR ''.''), Rep1 (Space U), Rep1 Dot]) s"
  shows "\<not> list_ex (\<lambda>pattern. re_match pattern s) (skip_patterns U)"
proof
  assume sk: "list_ex (\<lambda>pattern. re_match pattern s) (skip_patterns U)"
  from numbered_shape [OF n] obtain ds w t where
    s: "s = ds @ 46 # w # t" and ds: "ds \<noteq> []" "\<forall>x\<in>set ds. isdecimal U x"
    and w: "isspace U w"
    by blast
  from ds s have hd: "isdecimal U (hd s)" "s \<noteq> []"
    by (cases ds; simp)+
  from sk consider
      "match_dollar (Rep1 (Digit U)) s"
    | "match_prefix (Seq [Word ''page'', Rep1 (Space U), Rep1 (Digit U)]) s"
    | "match_prefix (Seq [Lit (CHR 0xA9), Rep Dot]) s"
    | "match_prefix (Word ''www.'') s"
    | "match_prefix (Word ''http'') s"
    | "match_prefix (Seq [Digit U, Opt (Digit U), Rep1 (Space U),
         Any_Of (map Word [''jan'', ''feb'', ''mar'', ''apr'', ''may'', ''jun'',
                           ''jul'', ''aug'', ''sep'', ''oct'', ''nov'', ''dec''])]) s"
    | "match_prefix (Seq [Lit (CHR ''.''), Lit (CHR ''.''), Lit (CHR ''.''),
         Rep (Lit (CHR ''.''))]) s"
    unfolding skip_patterns_def by auto
  then show False
  proof cases
    case 1
    from digits_dollar_shape [OF 1] obtain es where
      es: "\<forall>x\<in>set es. isdecimal U x" "s = es \<or> s = es @ [10]" by blast
    from es(2) show False
    proof
      assume "s = es"
      with s es(1) have "isdecimal U 46" by auto
      then show False by (simp add: not_decimal_codes)
    next
      assume "s = es @ [10]"
      with s have "ds @ 46 # w # t = es @ 10 # []" by simp
      from split_at_first_unique [OF ds(2) es(1) not_decimal_codes(1) not_decimal_codes(2) this]
      show False by simp
    qed
  next
    case 2
    from match_Seq_Word [OF 2] hd show False by (auto simp: ustr_def not_decimal_codes)
  next
    case 3
    from match_Seq_Lit [OF 3] hd show False by (auto simp: not_decimal_codes)
  next
    case 4
    from match_Word [OF 4] hd show False by (auto simp: ustr_def not_decimal_codes)
  next
    case 5
    from match_Word [OF 5] hd show False by (auto simp: ustr_def not_decimal_codes)
  next
    case 6
    from date_shape [OF 6] obtain pre m t' where
      es: "s = pre @ m # t'" "\<forall>x\<in>set pre. isdecimal U x \<or> isspace U x"
        "\<not> (isdecimal U m \<or> isspace U m)" "m \<noteq> 46"
      by blast
    have dsq: "\<forall>x\<in>set ds. isdecimal U x \<or> isspace U x"
      using ds(2) by blast
    have dotq: "\<not> (isdecimal U 46 \<or> isspace U 46)"
      by (simp add: not_decimal_codes not_space_dot)
    from es(1) s have "ds @ 46 # w # t = pre @ m # t'" by simp
    from split_at_first_unique [OF dsq es(2) dotq es(3) this] es(4)
    show False by simp
  next
    case 7
    from match_Seq_Lit [OF 7] hd show False by (auto simp: not_decimal_codes)
  qed
qed

lemma h1_patterns_not_skipped:
  assumes "list_ex (\<lambda>pattern. re_match pattern s) (h1_patterns U)"
  shows "\<not> list_ex (\<lambda>pattern. re_match pattern s) (skip_patterns U)"
proof -
  from assms consider
      "match_prefix (Seq [Rep1 (Digit U), Lit (CHR ''.''), Rep1 (Space U), Rep1 Dot]) s"
    | "match_prefix (Seq [Word ''chapter'', Rep1 (Space U), Rep1 (Digit U),
                   Rep (Space U), Opt (Lit (CHR '':'')), Rep (Space U), Rep1 Dot]) s"
    | "match_prefix (Seq [Word ''part'', Rep1 (Space U), Rep1 (One_Of ''ivx''),
                   Rep (Space U), Opt (Lit (CHR '':'')), Rep (Space U), Rep1 Dot]) s"
    unfolding h1_patterns_def by auto
  then show ?thesis
  proof cases
    case 1
    then show ?thesis by (rule numbered_not_skipped)
  next
    case 2
    from match_Seq_Word [OF 2] obtain rest where s: "s = ustr ''chapter'' @ rest" by blast
    show ?thesis
    proof
      assume "list_ex (\<lambda>pattern. re_match pattern s) (skip_patterns U)"
      from skip_patterns_first [OF this] s show False
        by (auto simp: ustr_def not_decimal_codes)
    qed
  next
    case 3
    from match_Seq_Word [OF 3] obtain rest where s: "s = ustr ''part'' @ rest" by blast
    show ?thesis
    proof
      assume "list_ex (\<lambda>pattern. re_match pattern s) (skip_patterns U)"
      from skip_patterns_first [OF this] s show False
        by (auto simp: ustr_def not_decimal_codes)
    qed
  qed
qed

section \<open>Properties of the classifier and of the line loop\<close>

lemma detect_page_num:
  "detect_intelligent_heading U line p = detect_intelligent_heading U line q"
  by (simp add: detect_intelligent_heading_def)

lemma detect_of_rule:
  "detect_intelligent_heading U line p =
     map_option (\<lambda>r. rule_result U r (clean_text U line)) (deciding_rule U line)"
  unfolding detect_intelligent_heading_def deciding_rule_def Let_def
  by auto

lemma str_isupper_long:
  "2 \<le> length s \<Longrightarrow>
   str_isupper U s \<longleftrightarrow>
     list_all (\<lambda>n. \<not> char_islower U n \<and> \<not> char_istitle U n) s \<and> list_ex (char_isupper U) s"
  by (cases s; cases "tl s") (auto simp: str_isupper_def)

text \<open>
  The all-caps rule decides only for a line without a lowercase and without a titlecase
  character that has an uppercase character.
\<close>

lemma all_caps_only_if:
  assumes "deciding_rule U line = Some All_Caps"
  shows "list_all (\<lambda>n. \<not> char_islower U n \<and> \<not> char_istitle U n) (clean_text U line)
         \<and> list_ex (char_isupper U) (clean_text U line)"
proof -
  from assms have "str_isupper U (clean_text U line) \<and> 5 \<le> length (clean_text U line)"
    unfolding deciding_rule_def Let_def by (auto split: if_splits)
  then show ?thesis
    using str_isupper_long [of "clean_text U line" U] by simp
qed

lemma lines_loop_acc: "lines_loop U p ls acc = acc @ lines_loop U p ls []"
proof (induction ls arbitrary: acc)
  case Nil
  show ?case by simp
next
  case (Cons l ls)
  show ?case
  proof (cases "clean_text U l = [] \<or> length (clean_text U l) < 3")
    case True
    then show ?thesis using Cons [of acc] by auto
  next
    case False
    show ?thesis
    proof (cases "detect_intelligent_heading U (clean_text U l) p")
      case None
      with False show ?thesis using Cons [of acc] by (simp add: Let_def)
    next
      case (Some r)
      obtain lvl tc where r: "r = (lvl, tc)" by (cases r)
      let ?e = "\<lparr>level = lvl, text_content = tc, page = p\<rparr>"
      have "lines_loop U p (l # ls) acc = lines_loop U p ls (acc @ [?e])"
        using False Some r by (simp add: Let_def)
      also have "\<dots> = (acc @ [?e]) @ lines_loop U p ls []"
        by (rule Cons)
      also have "\<dots> = acc @ lines_loop U p ls [?e]"
        using Cons [of "[?e]"] by simp
      also have "lines_loop U p ls [?e] = lines_loop U p (l # ls) []"
        using False Some r by (simp add: Let_def)
      finally show ?thesis .
    qed
  qed
qed

lemma lines_loop_Cons:
  "lines_loop U p (l # ls) [] =
     (if clean_text U l = [] \<or> length (clean_text U l) < 3 then lines_loop U p ls []
      else case detect_intelligent_heading U (clean_text U l) p of
             None \<Rightarrow> lines_loop U p ls []
           | Some (lvl, txt) \<Rightarrow>
               \<lparr>level = lvl, text_content = txt, page = p\<rparr> # lines_loop U p ls [])"
  using lines_loop_acc [of U p ls "[_]"]
  by (auto simp: Let_def split: option.splits)

lemma lines_loop_page: "e \<in> set (lines_loop U p ls []) \<Longrightarrow> page e = p"
  by (induction ls)
    (auto simp: lines_loop_Cons simp del: lines_loop.simps(2) split: if_splits option.splits)

lemma lines_loop_levels:
  "map (\<lambda>e. (level e, text_content e)) (lines_loop U p ls [])
     = map (\<lambda>e. (level e, text_content e)) (lines_loop U q ls [])"
proof (induction ls)
  case Nil
  show ?case by simp
next
  case (Cons l ls)
  have d: "detect_intelligent_heading U (clean_text U l) p
      = detect_intelligent_heading U (clean_text U l) q"
    by (rule detect_page_num)
  show ?case
    unfolding lines_loop_Cons d using Cons
    by (auto split: option.splits)
qed

lemma pages_loop_absent:
  "pages_loop U k (replicate n None @ ps) acc = pages_loop U (k + int n) ps acc"
  by (induction n arbitrary: k) (simp_all add: add.assoc)

section \<open>The claims about the classifier\<close>

text \<open>
  C1. The claim is that a line with three or more consecutive dots anywhere is never a
  heading. The source tries the pattern \<open>\.{3,}\<close> with \<open>re.match\<close>, which only looks at
  the start of the line, so leader dots inside a line do not exclude it: the line
  \<open>1. Introduction ..... 5\<close> contains five consecutive dots and is classified as
  a heading of level H1, on every page.
\<close>

theorem C1_leader_dots_accepted:
  "str_contains (ustr ''...'') (str_lower U (clean_text U (ustr ''1. Introduction ..... 5'')))
   \<and> detect_intelligent_heading U (ustr ''1. Introduction ..... 5'') page_num
       = Some (H1, ustr ''1. Introduction ..... 5'')"
  by code_simp

text \<open>
  C2, as amended. For every line whose normalized form has at least one uppercase
  character and no lowercase and no titlecase character (which is what \<open>str.isupper\<close> asks
  of a line of several characters), a length between 5 and 60 and at most 8 tokens, that
  no exclusion pattern rejects and that neither the H2 nor the H3 numbering pattern
  matches, the classifier returns level H1 with the full normalized line as its text.
  The characters are any Unicode code points, with the tables of the runtime for them.
\<close>

theorem C2_all_caps_rule:
  assumes "list_ex (char_isupper U) (clean_text U line)"
    and "list_all (\<lambda>n. \<not> char_islower U n \<and> \<not> char_istitle U n) (clean_text U line)"
    and "5 \<le> length (clean_text U line)" and "length (clean_text U line) \<le> 60"
    and "length (str_split U (clean_text U line)) \<le> 8"
    and "\<not> list_ex (\<lambda>pattern. re_match pattern (str_lower U (clean_text U line)))
           (skip_patterns U)"
    and "\<not> list_ex (\<lambda>pattern. re_match pattern (str_lower U (clean_text U line)))
           (h2_patterns U)"
    and "\<not> list_ex (\<lambda>pattern. re_match pattern (str_lower U (clean_text U line)))
           (h3_patterns U)"
  shows "detect_intelligent_heading U line page_num = Some (H1, clean_text U line)"
proof -
  from assms(3) have "2 \<le> length (clean_text U line)" by simp
  from str_isupper_long [OF this] assms(1,2) have "str_isupper U (clean_text U line)"
    by simp
  with assms(3-8) show ?thesis
    by (simp add: detect_intelligent_heading_def Let_def)
qed

text \<open>The line \<open>PROJECT SCOPE 2024\<close> meets the conditions.\<close>

theorem C2_all_caps_rule_witness:
  "list_ex (char_isupper bare_tables) (clean_text bare_tables (ustr ''PROJECT SCOPE 2024''))
   \<and> list_all (\<lambda>n. \<not> char_islower bare_tables n \<and> \<not> char_istitle bare_tables n)
        (clean_text bare_tables (ustr ''PROJECT SCOPE 2024''))
   \<and> 5 \<le> length (clean_text bare_tables (ustr ''PROJECT SCOPE 2024''))
   \<and> length (clean_text bare_tables (ustr ''PROJECT SCOPE 2024'')) \<le> 60
   \<and> length (str_split bare_tables (clean_text bare_tables (ustr ''PROJECT SCOPE 2024''))) \<le> 8
   \<and> \<not> list_ex (\<lambda>pattern. re_match pattern
          (str_lower bare_tables (clean_text bare_tables (ustr ''PROJECT SCOPE 2024''))))
         (skip_patterns bare_tables)
   \<and> \<not> list_ex (\<lambda>pattern. re_match pattern
          (str_lower bare_tables (clean_text bare_tables (ustr ''PROJECT SCOPE 2024''))))
         (h2_patterns bare_tables)
   \<and> \<not> list_ex (\<lambda>pattern. re_match pattern
          (str_lower bare_tables (clean_text bare_tables (ustr ''PROJECT SCOPE 2024''))))
         (h3_patterns bare_tables)
   \<and> detect_intelligent_heading bare_tables (ustr ''PROJECT SCOPE 2024'') 7
       = Some (H1, ustr ''PROJECT SCOPE 2024'')"
proof -
  let ?U = bare_tables
  let ?l = "ustr ''PROJECT SCOPE 2024''"
  have c: "clean_text ?U ?l = ?l"
    by code_simp
  have a1: "list_ex (char_isupper ?U) (clean_text ?U ?l)" by code_simp
  have a2: "list_all (\<lambda>n. \<not> char_islower ?U n \<and> \<not> char_istitle ?U n) (clean_text ?U ?l)"
    by code_simp
  have a3: "5 \<le> length (clean_text ?U ?l)" by code_simp
  have a4: "length (clean_text ?U ?l) \<le> 60" by code_simp
  have a5: "length (str_split ?U (clean_text ?U ?l)) \<le> 8" by code_simp
  have a6: "\<not> list_ex (\<lambda>pattern. re_match pattern (str_lower ?U (clean_text ?U ?l)))
         (skip_patterns ?U)" by code_simp
  have a7: "\<not> list_ex (\<lambda>pattern. re_match pattern (str_lower ?U (clean_text ?U ?l)))
         (h2_patterns ?U)" by code_simp
  have a8: "\<not> list_ex (\<lambda>pattern. re_match pattern (str_lower ?U (clean_text ?U ?l)))
         (h3_patterns ?U)" by code_simp
  have "detect_intelligent_heading ?U ?l 7 = Some (H1, ?l)"
    using C2_all_caps_rule [OF a1 a2 a3 a4 a5 a6 a7 a8, of 7] by (simp only: c)
  with a1 a2 a3 a4 a5 a6 a7 a8 show ?thesis by blast
qed

text \<open>
  C2 as stated fails on a line without letters: \<open>12-34-56\<close> has no lowercase letter,
  eight characters and one token, no exclusion pattern and no earlier rule matches it,
  and yet the classifier returns nothing, because \<open>str.isupper\<close> asks for at least one
  uppercase character.
\<close>

theorem C2_no_letters_counterexample:
  "clean_text bare_tables (ustr ''12-34-56'') = ustr ''12-34-56''
   \<and> list_all (\<lambda>n. \<not> char_islower bare_tables n) (ustr ''12-34-56'')
   \<and> 5 \<le> length (ustr ''12-34-56'') \<and> length (ustr ''12-34-56'') \<le> 60
   \<and> length (str_split bare_tables (ustr ''12-34-56'')) \<le> 8
   \<and> \<not> list_ex (\<lambda>pattern. re_match pattern (str_lower bare_tables (ustr ''12-34-56'')))
         (skip_patterns bare_tables)
   \<and> \<not> list_ex (\<lambda>pattern. re_match pattern (str_lower bare_tables (ustr ''12-34-56'')))
         (h1_patterns bare_tables)
   \<and> str_strip bare_tables (str_lower bare_tables (ustr ''12-34-56'')) \<notin> set h1_sections
   \<and> \<not> list_ex (\<lambda>pattern. re_match pattern (str_lower bare_tables (ustr ''12-34-56'')))
         (h2_patterns bare_tables)
   \<and> \<not> list_ex (\<lambda>pattern. re_match pattern (str_lower bare_tables (ustr ''12-34-56'')))
         (h3_patterns bare_tables)
   \<and> detect_intelligent_heading bare_tables (ustr ''12-34-56'') 1 = None"
  by code_simp

text \<open>
  C3. For every line that is past the length check of the classifier and whose
  lowercased normalized form matches one of the H1 patterns (numbered, chapter or part),
  the classifier returns level H1 with the full normalized line as its text, and the
  \<open>return\<close> statement that gives it is the one of the H1 patterns: no exclusion pattern
  stands in the way, and the rules below, the all-caps rule among them, are not tried,
  whether or not they would match.
\<close>

theorem C3_h1_pattern_wins:
  assumes "list_ex (\<lambda>pattern. re_match pattern (str_lower U (clean_text U line)))
             (h1_patterns U)"
    and "3 \<le> length (clean_text U line)" and "length (clean_text U line) \<le> 200"
  shows "detect_intelligent_heading U line page_num = Some (H1, clean_text U line)
         \<and> deciding_rule U line = Some H1_Pattern"
proof -
  from h1_patterns_not_skipped [OF assms(1)]
  have "\<not> list_ex (\<lambda>pattern. re_match pattern (str_lower U (clean_text U line)))
           (skip_patterns U)" .
  with assms have "deciding_rule U line = Some H1_Pattern"
    by (simp add: deciding_rule_def Let_def)
  then show ?thesis
    by (simp add: detect_of_rule)
qed

text \<open>
  The line \<open>1. OVERVIEW\<close> matches the numbered pattern and meets every condition of
  the all-caps rule; the rule that decides is the one of the H1 patterns.
\<close>

theorem C3_h1_pattern_wins_witness:
  "list_ex (\<lambda>pattern. re_match pattern
       (str_lower bare_tables (clean_text bare_tables (ustr ''1. OVERVIEW''))))
     (h1_patterns bare_tables)
   \<and> 3 \<le> length (clean_text bare_tables (ustr ''1. OVERVIEW''))
   \<and> length (clean_text bare_tables (ustr ''1. OVERVIEW'')) \<le> 200
   \<and> str_isupper bare_tables (clean_text bare_tables (ustr ''1. OVERVIEW''))
   \<and> 5 \<le> length (clean_text bare_tables (ustr ''1. OVERVIEW''))
   \<and> length (clean_text bare_tables (ustr ''1. OVERVIEW'')) \<le> 60
   \<and> length (str_split bare_tables (clean_text bare_tables (ustr ''1. OVERVIEW''))) \<le> 8
   \<and> detect_intelligent_heading bare_tables (ustr ''1. OVERVIEW'') 1
       = Some (H1, ustr ''1. OVERVIEW'')
   \<and> deciding_rule bare_tables (ustr ''1. OVERVIEW'') = Some H1_Pattern"
proof -
  let ?U = bare_tables
  let ?l = "ustr ''1. OVERVIEW''"
  have c: "clean_text ?U ?l = ?l"
    by code_simp
  have m: "list_ex (\<lambda>pattern. re_match pattern (str_lower ?U (clean_text ?U ?l)))
      (h1_patterns ?U)"
    by code_simp
  have l3: "3 \<le> length (clean_text ?U ?l)" by code_simp
  have l200: "length (clean_text ?U ?l) \<le> 200" by code_simp
  have u: "str_isupper ?U (clean_text ?U ?l)" by code_simp
  have l5: "5 \<le> length (clean_text ?U ?l)" by code_simp
  have l60: "length (clean_text ?U ?l) \<le> 60" by code_simp
  have t: "length (str_split ?U (clean_text ?U ?l)) \<le> 8" by code_simp
  from C3_h1_pattern_wins [OF m l3 l200, of 1]
  have "detect_intelligent_heading ?U ?l 1 = Some (H1, ?l)"
    and "deciding_rule ?U ?l = Some H1_Pattern"
    by (simp_all only: c)
  with m l3 l200 u l5 l60 t show ?thesis by blast
qed

text \<open>
  C7. For every page number, the line \<open>Executive Summary:\<close> is classified as level H2
  with the text \<open>Executive Summary\<close>, the colon removed; the entry that the builder makes
  of it carries that page number, and a document whose page \<open>n + 1\<close> is that line, after
  \<open>n\<close> pages without text, has the outline of that one entry with the page \<open>n + 1\<close>.
\<close>

theorem C7_executive_summary:
  "detect_intelligent_heading U (ustr ''Executive Summary:'') page_num
     = Some (H2, ustr ''Executive Summary'')
   \<and> lines_loop U page_num [ustr ''Executive Summary:''] []
       = [\<lparr>level = H2, text_content = ustr ''Executive Summary'', page = page_num\<rparr>]
   \<and> extract_outline_exact U (replicate n None @ [Some (ustr ''Executive Summary:'')])
       = [\<lparr>level = H2, text_content = ustr ''Executive Summary'', page = 1 + int n\<rparr>]"
proof (intro conjI)
  show "detect_intelligent_heading U (ustr ''Executive Summary:'') page_num
      = Some (H2, ustr ''Executive Summary'')"
    by code_simp
  show l: "lines_loop U k [ustr ''Executive Summary:''] []
       = [\<lparr>level = H2, text_content = ustr ''Executive Summary'', page = k\<rparr>]" for k
    by code_simp
  have s: "str_split_on 10 (ustr ''Executive Summary:'') = [ustr ''Executive Summary:'']"
    by code_simp
  have ne: "ustr ''Executive Summary:'' \<noteq> []"
    by (simp add: ustr_def)
  have "collect_outline U (replicate n None @ [Some (ustr ''Executive Summary:'')])
      = [\<lparr>level = H2, text_content = ustr ''Executive Summary'', page = 1 + int n\<rparr>]"
    unfolding collect_outline_def pages_loop_absent
    by (simp add: s l ne del: lines_loop.simps)
  then show "extract_outline_exact U (replicate n None @ [Some (ustr ''Executive Summary:'')])
       = [\<lparr>level = H2, text_content = ustr ''Executive Summary'', page = 1 + int n\<rparr>]"
    by (simp add: extract_outline_exact_def Let_def)
qed

text \<open>
  C8. The page number does not affect the decision: for any two page numbers the
  classifier returns the same result for a line, the entries built from the lines of a
  page have the same levels and texts whatever the page number, and each entry carries
  the page number it was built with.
\<close>

theorem C8_page_number_carried:
  "detect_intelligent_heading U line p = detect_intelligent_heading U line q
   \<and> map (\<lambda>e. (level e, text_content e)) (lines_loop U p lines [])
       = map (\<lambda>e. (level e, text_content e)) (lines_loop U q lines [])
   \<and> (\<forall>e\<in>set (lines_loop U p lines []). page e = p)"
  using detect_page_num [of U line p q] lines_loop_levels [of U p lines q]
    lines_loop_page [of _ U p lines]
  by blast

text \<open>A page with one heading, read as page 2 and as page 9.\<close>

theorem C8_page_number_carried_witness:
  "lines_loop bare_tables 2 [ustr ''1.1 Scope'', ustr ''plain text''] []
      = [\<lparr>level = H2, text_content = ustr ''1.1 Scope'', page = 2\<rparr>]
   \<and> detect_intelligent_heading bare_tables (ustr ''1.1 Scope'') 2
       = detect_intelligent_heading bare_tables (ustr ''1.1 Scope'') 9
   \<and> map (\<lambda>e. (level e, text_content e))
         (lines_loop bare_tables 2 [ustr ''1.1 Scope'', ustr ''plain text''] [])
       = map (\<lambda>e. (level e, text_content e))
           (lines_loop bare_tables 9 [ustr ''1.1 Scope'', ustr ''plain text''] [])
   \<and> page (hd (lines_loop bare_tables 2 [ustr ''1.1 Scope'', ustr ''plain text''] [])) = 2"
proof -
  let ?ls = "[ustr ''1.1 Scope'', ustr ''plain text'']"
  have l: "lines_loop bare_tables 2 ?ls []
      = [\<lparr>level = H2, text_content = ustr ''1.1 Scope'', page = 2\<rparr>]"
    by code_simp
  then have "hd (lines_loop bare_tables 2 ?ls []) \<in> set (lines_loop bare_tables 2 ?ls [])"
    by simp
  with l C8_page_number_carried [of bare_tables "ustr ''1.1 Scope''" 2 9 ?ls]
  show ?thesis by blast
qed

text \<open>
  C10. Classifying a normalized line gives the same result as classifying the raw line,
  for every string and page number; so the line loop of the builder, which passes the
  normalized line to the classifier, does what it would do with the raw line.
\<close>

theorem C10_classify_normalized:
  "detect_intelligent_heading U (clean_text U s) page_num
     = detect_intelligent_heading U s page_num
   \<and> lines_loop U page_num (s # lines) outline =
       (if clean_text U s = [] \<or> length (clean_text U s) < 3
        then lines_loop U page_num lines outline
        else case detect_intelligent_heading U s page_num of
               None \<Rightarrow> lines_loop U page_num lines outline
             | Some (lvl, tc) \<Rightarrow>
                 lines_loop U page_num lines
                   (outline @ [\<lparr>level = lvl, text_content = tc, page = page_num\<rparr>]))"
proof -
  have "detect_intelligent_heading U (clean_text U s) page_num
      = detect_intelligent_heading U s page_num"
    by (simp add: detect_intelligent_heading_def clean_text_idem)
  then show ?thesis
    by (simp add: Let_def)
qed

section \<open>Properties of the page loop, the duplicate removal and the title loop\<close>

lemma entry_key_inj: "entry_key (a :: heading_entry) = entry_key b \<Longrightarrow> a = b"
  by (cases a, cases b) (simp add: entry_key_def)

lemma unique_loop_acc: "unique_loop xs seen acc = acc @ unique_loop xs seen []"
proof (induction xs arbitrary: seen acc)
  case Nil
  show ?case by simp
next
  case (Cons x xs)
  show ?case
  proof (cases "entry_key x \<in> seen")
    case True
    then show ?thesis using Cons [of seen acc] by simp
  next
    case False
    let ?seen = "insert (entry_key x) seen"
    have "unique_loop (x # xs) seen acc = unique_loop xs ?seen (acc @ [x])"
      using False by (simp add: Let_def)
    also have "\<dots> = (acc @ [x]) @ unique_loop xs ?seen []"
      by (rule Cons)
    also have "\<dots> = acc @ unique_loop xs ?seen [x]"
      using Cons [of ?seen "[x]"] by simp
    also have "unique_loop xs ?seen [x] = unique_loop (x # xs) seen []"
      using False by (simp add: Let_def)
    finally show ?thesis .
  qed
qed

lemma unique_loop_Cons:
  "unique_loop (x # xs) seen [] =
     (if entry_key x \<notin> seen then x # unique_loop xs (insert (entry_key x) seen) []
      else unique_loop xs seen [])"
  using unique_loop_acc [of xs "insert (entry_key x) seen" "[x]"]
  by (simp add: Let_def)

lemma unique_loop_set:
  "set (unique_loop xs seen []) = {x \<in> set xs. entry_key x \<notin> seen}"
proof (induction xs arbitrary: seen)
  case Nil
  show ?case by simp
next
  case (Cons x xs)
  show ?case
    unfolding unique_loop_Cons using Cons entry_key_inj by auto
qed

lemma unique_loop_distinct: "distinct (map entry_key (unique_loop xs seen []))"
proof (induction xs arbitrary: seen)
  case Nil
  show ?case by simp
next
  case (Cons x xs)
  show ?case
    unfolding unique_loop_Cons using Cons by (auto simp: unique_loop_set)
qed

lemma first_index_Cons:
  "first_index k (x # xs) = (if entry_key x = k then 0 else Suc (first_index k xs))"
  by (simp add: first_index_def)

lemma unique_loop_order:
  "sorted_wrt (\<lambda>a b. first_index (entry_key a) xs < first_index (entry_key b) xs)
     (unique_loop xs seen [])"
proof (induction xs arbitrary: seen)
  case Nil
  show ?case by simp
next
  case (Cons x xs)
  let ?P = "\<lambda>a b. first_index (entry_key a) xs < first_index (entry_key b) xs"
  let ?Q = "\<lambda>a b. first_index (entry_key a) (x # xs) < first_index (entry_key b) (x # xs)"
  have lift: "sorted_wrt ?Q (unique_loop xs s [])" if "entry_key x \<in> s" for s
  proof (rule sorted_wrt_mono_rel [of _ ?P])
    show "sorted_wrt ?P (unique_loop xs s [])" by (rule Cons)
  next
    fix a b
    assume "a \<in> set (unique_loop xs s [])" "b \<in> set (unique_loop xs s [])" "?P a b"
    with that show "?Q a b"
      by (auto simp: unique_loop_set first_index_Cons)
  qed
  show ?case
  proof (cases "entry_key x \<in> seen")
    case True
    then show ?thesis
      using lift [of seen] by (simp add: unique_loop_Cons del: unique_loop.simps)
  next
    case False
    have "\<forall>b\<in>set (unique_loop xs (insert (entry_key x) seen) []). ?Q x b"
      by (auto simp: unique_loop_set first_index_Cons)
    with False show ?thesis
      using lift [of "insert (entry_key x) seen"] by (simp add: unique_loop_Cons del: unique_loop.simps)
  qed
qed

lemma title_loop_find:
  "title_loop U ls =
     (case find (title_like U) ls of None \<Rightarrow> [] | Some line \<Rightarrow> line @ ustr ''  '')"
  by (induction ls) auto

lemma first_page_lines_Nil: "first_page_lines U [] = []"
  by (simp add: first_page_lines_def str_split_on_def clean_text_def)

lemma pages_loop_acc: "pages_loop U n ps acc = acc @ pages_loop U n ps []"
proof (induction ps arbitrary: n acc)
  case Nil
  show ?case by simp
next
  case (Cons pt ps)
  show ?case
  proof (cases "pt = None \<or> pt = Some []")
    case True
    then show ?thesis using Cons [of "n + 1" acc] by auto
  next
    case False
    then obtain t where t: "pt = Some t" "t \<noteq> []" by auto
    let ?ls = "str_split_on 10 t"
    have "pages_loop U n (pt # ps) acc = pages_loop U (n + 1) ps (lines_loop U n ?ls acc)"
      using t by simp
    also have "\<dots> = lines_loop U n ?ls acc @ pages_loop U (n + 1) ps []"
      by (rule Cons)
    also have "\<dots> = acc @ lines_loop U n ?ls [] @ pages_loop U (n + 1) ps []"
      using lines_loop_acc [of U n ?ls acc] by simp
    also have "lines_loop U n ?ls [] @ pages_loop U (n + 1) ps [] = pages_loop U n (pt # ps) []"
      using t Cons [of "n + 1" "lines_loop U n ?ls []"] by simp
    finally show ?thesis .
  qed
qed

lemma pages_loop_Cons:
  "pages_loop U n (pt # ps) [] =
     (case pt of
        None \<Rightarrow> pages_loop U (n + 1) ps []
      | Some t \<Rightarrow>
          if t = [] then pages_loop U (n + 1) ps []
          else lines_loop U n (str_split_on 10 t) [] @ pages_loop U (n + 1) ps [])"
  using pages_loop_acc [of U "n + 1" ps "lines_loop U n (str_split_on 10 (the pt)) []"]
  by (auto split: option.splits)

lemma pages_loop_source:
  "e \<in> set (pages_loop U n ps []) \<Longrightarrow>
     n \<le> page e \<and> page e < n + int (length ps)
     \<and> (\<exists>t. ps ! nat (page e - n) = Some t \<and> t \<noteq> [])"
proof (induction ps arbitrary: n)
  case Nil
  then show ?case by simp
next
  case (Cons pt ps)
  show ?case
  proof (cases "e \<in> set (pages_loop U (n + 1) ps [])")
    case True
    from Cons.IH [OF True] obtain t where
      b: "n + 1 \<le> page e" "page e < n + 1 + int (length ps)"
      and t: "ps ! nat (page e - (n + 1)) = Some t" "t \<noteq> []"
      by blast
    from b have "nat (page e - n) = Suc (nat (page e - (n + 1)))"
      by simp
    with t have "(pt # ps) ! nat (page e - n) = Some t"
      by simp
    with b t(2) show ?thesis by auto
  next
    case False
    with Cons.prems obtain t where t: "pt = Some t" "t \<noteq> []"
        and e: "e \<in> set (lines_loop U n (str_split_on 10 t) [])"
      unfolding pages_loop_Cons by (auto split: option.splits if_splits)
    from lines_loop_page [OF e] have "page e = n" .
    with t show ?thesis by simp
  qed
qed

lemma lines_loop_none:
  assumes "\<And>l. l \<in> set ls \<Longrightarrow> detect_intelligent_heading U (clean_text U l) n = None"
  shows "lines_loop U n ls [] = []"
  using assms by (induction ls) (simp_all add: lines_loop_Cons del: lines_loop.simps(2))

lemma pages_loop_none:
  assumes "\<And>t l k. Some t \<in> set ps \<Longrightarrow> l \<in> set (str_split_on 10 t)
            \<Longrightarrow> detect_intelligent_heading U (clean_text U l) k = None"
  shows "pages_loop U n ps [] = []"
  using assms
proof (induction ps arbitrary: n)
  case Nil
  show ?case by simp
next
  case (Cons pt ps)
  have rest: "pages_loop U (n + 1) ps [] = []"
    by (rule Cons.IH) (rule Cons.prems, simp_all)
  show ?case
  proof (cases pt)
    case None
    with rest show ?thesis by (simp add: pages_loop_Cons del: pages_loop.simps(2))
  next
    case (Some t)
    have "lines_loop U n (str_split_on 10 t) [] = []"
      by (rule lines_loop_none) (rule Cons.prems, simp_all add: Some)
    with rest Some show ?thesis by (simp add: pages_loop_Cons del: pages_loop.simps(2))
  qed
qed

section \<open>The claims about the outline and the title\<close>

text \<open>
  C4. For every sequence of pages, no two entries of the outline that is returned have the
  same level, text and page; the outline has exactly the entries of the sequence
  collected before the duplicates are removed; and its entries stand in the order of the
  first occurrences of their keys in that sequence.
\<close>

theorem C4_outline_deduplicated:
  "distinct (map entry_key (extract_outline_exact U pages))
   \<and> set (extract_outline_exact U pages) = set (collect_outline U pages)
   \<and> sorted_wrt
       (\<lambda>a b. first_index (entry_key a) (collect_outline U pages)
               < first_index (entry_key b) (collect_outline U pages))
       (extract_outline_exact U pages)"
  unfolding extract_outline_exact_def
  using unique_loop_distinct [of "collect_outline U pages" "{}"]
    unique_loop_order [of "collect_outline U pages" "{}"]
  by (simp add: unique_loop_set)

text \<open>A page on which one heading occurs twice.\<close>

theorem C4_outline_deduplicated_witness:
  "collect_outline bare_tables
      [Some (ustr ''1. Scope'' @ [10] @ ustr ''1.1 Aims'' @ [10] @ ustr ''1. Scope'')]
     = [\<lparr>level = H1, text_content = ustr ''1. Scope'', page = 1\<rparr>,
        \<lparr>level = H2, text_content = ustr ''1.1 Aims'', page = 1\<rparr>,
        \<lparr>level = H1, text_content = ustr ''1. Scope'', page = 1\<rparr>]
   \<and> extract_outline_exact bare_tables
        [Some (ustr ''1. Scope'' @ [10] @ ustr ''1.1 Aims'' @ [10] @ ustr ''1. Scope'')]
     = [\<lparr>level = H1, text_content = ustr ''1. Scope'', page = 1\<rparr>,
        \<lparr>level = H2, text_content = ustr ''1.1 Aims'', page = 1\<rparr>]
   \<and> distinct (map entry_key (extract_outline_exact bare_tables
        [Some (ustr ''1. Scope'' @ [10] @ ustr ''1.1 Aims'' @ [10] @ ustr ''1. Scope'')]))"
proof -
  let ?pages = "[Some (ustr ''1. Scope'' @ [10] @ ustr ''1.1 Aims'' @ [10] @ ustr ''1. Scope'')]"
  have "collect_outline bare_tables ?pages
     = [\<lparr>level = H1, text_content = ustr ''1. Scope'', page = 1\<rparr>,
        \<lparr>level = H2, text_content = ustr ''1.1 Aims'', page = 1\<rparr>,
        \<lparr>level = H1, text_content = ustr ''1. Scope'', page = 1\<rparr>]"
    by code_simp
  moreover have "extract_outline_exact bare_tables ?pages
     = [\<lparr>level = H1, text_content = ustr ''1. Scope'', page = 1\<rparr>,
        \<lparr>level = H2, text_content = ustr ''1.1 Aims'', page = 1\<rparr>]"
    by code_simp
  ultimately show ?thesis
    using C4_outline_deduplicated [of bare_tables ?pages] by blast
qed

text \<open>
  C6. On the first-page lines \<open>Acme Corp\<close>, \<open>Annual Report on Regional Market Trends\<close>
  and the copyright line, the title selector returns the second line followed by two
  spaces. In general: the lines of the first page are the pieces of its text between the
  newlines; each is normalized, those that are empty after that are dropped, and the
  first 15 of the rest are the candidates; the title is the first candidate that passes
  all the filters, with two spaces appended, and the empty string when no candidate
  passes, when the document has no page and when the first page has no text.
\<close>

theorem C6_title_selected:
  "extract_title_smart U
     [Some (ustr ''Acme Corp'' @ [10] @ ustr ''Annual Report on Regional Market Trends''
            @ [10] @ [169] @ ustr '' 2023 Acme'')]
     = ustr ''Annual Report on Regional Market Trends  ''
   \<and> extract_title_smart U [] = []
   \<and> extract_title_smart U (None # rest) = []
   \<and> extract_title_smart U (Some first_page_text # rest) =
       (case find (title_like U)
               (take 15 (filter (\<lambda>l. l \<noteq> [])
                           (map (clean_text U) (str_split_on 10 first_page_text)))) of
          None \<Rightarrow> []
        | Some line \<Rightarrow> line @ ustr ''  '')"
proof (intro conjI)
  show "extract_title_smart U
     [Some (ustr ''Acme Corp'' @ [10] @ ustr ''Annual Report on Regional Market Trends''
            @ [10] @ [169] @ ustr '' 2023 Acme'')]
     = ustr ''Annual Report on Regional Market Trends  ''"
    by code_simp
  show "extract_title_smart U [] = []"
    by (simp add: extract_title_smart_def)
  show "extract_title_smart U (None # rest) = []"
    by (simp add: extract_title_smart_def)
  show "extract_title_smart U (Some first_page_text # rest) =
       (case find (title_like U)
               (take 15 (filter (\<lambda>l. l \<noteq> [])
                           (map (clean_text U) (str_split_on 10 first_page_text)))) of
          None \<Rightarrow> []
        | Some line \<Rightarrow> line @ ustr ''  '')"
  proof (cases "first_page_text = []")
    case True
    then show ?thesis
      by (simp add: extract_title_smart_def str_split_on_def clean_text_def)
  next
    case False
    then show ?thesis
      by (simp add: extract_title_smart_def title_loop_find first_page_lines_def)
  qed
qed

text \<open>
  A first page whose lines need the normalizer: empty lines, spaces at the ends, a tab
  and runs of spaces inside the title. And a first page whose only title-like line is
  the sixteenth of its non-empty lines.
\<close>

theorem C6_title_selected_witness:
  "extract_title_smart bare_tables
     [Some ([10] @ ustr ''  Acme   Corp '' @ [10, 10]
            @ ustr '' Annual   Report on'' @ [9] @ ustr ''Regional Market  Trends   ''
            @ [10] @ [169] @ ustr '' 2023 Acme''),
      Some (ustr ''Another Line That Looks Like a Title'')]
     = ustr ''Annual Report on Regional Market Trends  ''
   \<and> extract_title_smart bare_tables
       [Some (concat (replicate 15 (ustr ''x'' @ [10, 10]))
              @ ustr ''Annual Report on Regional Market Trends'')]
     = []"
proof -
  let ?t1 = "[10] @ ustr ''  Acme   Corp '' @ [10, 10]
            @ ustr '' Annual   Report on'' @ [9] @ ustr ''Regional Market  Trends   ''
            @ [10] @ [169] @ ustr '' 2023 Acme''"
  let ?t2 = "concat (replicate 15 (ustr ''x'' @ [10, 10]))
              @ ustr ''Annual Report on Regional Market Trends''"
  have f1: "(case find (title_like bare_tables)
               (take 15 (filter (\<lambda>l. l \<noteq> [])
                           (map (clean_text bare_tables) (str_split_on 10 ?t1)))) of
          None \<Rightarrow> []
        | Some line \<Rightarrow> line @ ustr ''  '')
      = ustr ''Annual Report on Regional Market Trends  ''"
    by code_simp
  have f2: "(case find (title_like bare_tables)
               (take 15 (filter (\<lambda>l. l \<noteq> [])
                           (map (clean_text bare_tables) (str_split_on 10 ?t2)))) of
          None \<Rightarrow> []
        | Some line \<Rightarrow> line @ ustr ''  '')
      = []"
    by code_simp
  from C6_title_selected [of bare_tables "[Some (ustr ''Another Line That Looks Like a Title'')]" ?t1] f1
  have "extract_title_smart bare_tables
     [Some ?t1, Some (ustr ''Another Line That Looks Like a Title'')]
     = ustr ''Annual Report on Regional Market Trends  ''"
    by simp
  moreover from C6_title_selected [of bare_tables "[]" ?t2] f2
  have "extract_title_smart bare_tables [Some ?t2] = []"
    by simp
  ultimately show ?thesis by blast
qed

text \<open>
  C9. The outline builder returns an outline for every sequence of pages: the builder and
  the functions under it are total and have no error result. The empty sequence gives the
  empty outline; every entry of an outline comes from a page of the sequence whose text
  is present and not empty, so that a page without text contributes nothing; and when no
  line of any page is classified as a heading, the outline is empty.
\<close>

theorem C9_outline_total:
  "extract_outline_exact U [] = []
   \<and> (\<forall>e\<in>set (extract_outline_exact U pages).
         1 \<le> page e \<and> page e \<le> int (length pages)
         \<and> (\<exists>t. pages ! nat (page e - 1) = Some t \<and> t \<noteq> []))
   \<and> ((\<forall>t l k. Some t \<in> set pages \<and> l \<in> set (str_split_on 10 t)
          \<longrightarrow> detect_intelligent_heading U (clean_text U l) k = None)
        \<longrightarrow> extract_outline_exact U pages = [])"
proof (intro conjI ballI impI)
  show "extract_outline_exact U [] = []"
    by (simp add: extract_outline_exact_def collect_outline_def)
next
  fix e
  assume "e \<in> set (extract_outline_exact U pages)"
  then have "e \<in> set (pages_loop U 1 pages [])"
    by (simp add: extract_outline_exact_def collect_outline_def unique_loop_set)
  from pages_loop_source [OF this]
  show "1 \<le> page e" "page e \<le> int (length pages)"
    "\<exists>t. pages ! nat (page e - 1) = Some t \<and> t \<noteq> []"
    by auto
next
  assume "\<forall>t l k. Some t \<in> set pages \<and> l \<in> set (str_split_on 10 t)
          \<longrightarrow> detect_intelligent_heading U (clean_text U l) k = None"
  then have "pages_loop U 1 pages [] = []"
    by (intro pages_loop_none) blast
  then show "extract_outline_exact U pages = []"
    by (simp add: extract_outline_exact_def collect_outline_def)
qed

text \<open>A document with an absent and an empty page, with and without a heading.\<close>

theorem C9_outline_total_witness:
  "extract_outline_exact bare_tables [None, Some [], Some (ustr ''1. Scope'')]
     = [\<lparr>level = H1, text_content = ustr ''1. Scope'', page = 3\<rparr>]
   \<and> [None, Some [], Some (ustr ''1. Scope'')] ! nat (3 - 1) = Some (ustr ''1. Scope'')
   \<and> extract_outline_exact bare_tables [None, Some [], Some (ustr ''plain words here'')] = []
   \<and> extract_outline_exact bare_tables [] = []"
proof -
  let ?U = bare_tables
  have a: "extract_outline_exact ?U [None, Some [], Some (ustr ''1. Scope'')]
     = [\<lparr>level = H1, text_content = ustr ''1. Scope'', page = 3\<rparr>]"
    by code_simp
  have d0: "detect_intelligent_heading ?U (clean_text ?U []) k = None" for k
    by code_simp
  have d1: "detect_intelligent_heading ?U (clean_text ?U (ustr ''plain words here'')) k = None"
    for k
    by code_simp
  have s0: "str_split_on 10 [] = [[]]"
    by code_simp
  have s1: "str_split_on 10 (ustr ''plain words here'') = [ustr ''plain words here'']"
    by code_simp
  have h: "\<forall>t l k. Some t \<in> set [None, Some [], Some (ustr ''plain words here'')]
            \<and> l \<in> set (str_split_on 10 t)
          \<longrightarrow> detect_intelligent_heading ?U (clean_text ?U l) k = None"
    using d0 d1 s0 s1 by auto
  from C9_outline_total [of ?U "[None, Some [], Some (ustr ''plain words here'')]"] h
  have "extract_outline_exact ?U [None, Some [], Some (ustr ''plain words here'')] = []"
    and "extract_outline_exact ?U [] = []"
    by blast+
  with a show ?thesis by simp
qed

end
